theory Spec2Isabelle
  imports Complex_Main "HOL-Library.AList" "HOL-Library.Sublist"
begin

section \<open>The CSV consolidation server (server.js)\<close>

text \<open>
  The theory embeds the two request handlers of \<^verbatim>\<open>server.js\<close>: the upload handler
  \<^verbatim>\<open>POST /api/upload\<close>, which consolidates the CSV entries of a zip archive, and the
  read-only \<^verbatim>\<open>GET /api/preview\<close>. Archive extraction and CSV tokenisation are done by
  libraries; the handlers see them as a list of entries, each producing a sequence of
  parser events, and that is how they enter the model.
\<close>

subsection \<open>JavaScript values and objects\<close>

text \<open>
  The values that occur in rows: a cell is a string, a missing property reads as
  \<^verbatim>\<open>undefined\<close>, and a property that the row does not have itself but
  \<^verbatim>\<open>Object.prototype\<close> has reads as the inherited member: \<open>JInherited n\<close> is the member
  of \<^verbatim>\<open>Object.prototype\<close> called \<open>n\<close>, a function, or for \<^verbatim>\<open>__proto__\<close> the prototype
  object itself. \<^verbatim>\<open>null\<close> is only there because \<^verbatim>\<open>toArrayLimit\<close> tests for it.
\<close>

datatype jsval = JUndefined | JNull | JStr string | JInherited string

text \<open>
  Truthiness, as used by \<^verbatim>\<open>||\<close> and \<^verbatim>\<open>if (v)\<close>: the empty string is falsy, functions
  and objects are truthy.
\<close>

fun truthy :: "jsval \<Rightarrow> bool" where
  "truthy JUndefined = False"
| "truthy JNull = False"
| "truthy (JStr s) = (s \<noteq> [])"
| "truthy (JInherited n) = True"

definition js_or :: "jsval \<Rightarrow> jsval \<Rightarrow> jsval" where
  "js_or a b = (if truthy a then a else b)"

text \<open>
  An object is a plain object: the list of its own properties in the order of their
  creation, with \<^verbatim>\<open>Object.prototype\<close> as its prototype.
\<close>

type_synonym obj = "(string \<times> jsval) list"

text \<open>The names of the members of \<^verbatim>\<open>Object.prototype\<close>.\<close>

definition prototype_names :: "string list" where
  "prototype_names =
     [''constructor'', ''__defineGetter__'', ''__defineSetter__'', ''hasOwnProperty'',
      ''__lookupGetter__'', ''__lookupSetter__'', ''isPrototypeOf'',
      ''propertyIsEnumerable'', ''toString'', ''valueOf'', ''__proto__'',
      ''toLocaleString'']"

text \<open>
  Reading \<^verbatim>\<open>ob[k]\<close>: the own property if there is one, else the member of the
  prototype, else \<^verbatim>\<open>undefined\<close>.
\<close>

definition obj_get :: "obj \<Rightarrow> string \<Rightarrow> jsval" where
  "obj_get ob k =
     (case map_of ob k of
        Some v \<Rightarrow> v
      | None \<Rightarrow> if k \<in> set prototype_names then JInherited k else JUndefined)"

text \<open>
  Assigning \<^verbatim>\<open>ob[k] = v\<close>: an existing own property is overwritten in place, a new
  one is appended. The name \<^verbatim>\<open>__proto__\<close> is the exception: unless the object has an
  own property of that name, the assignment runs the inherited setter and creates no
  property. The setter ignores a string and \<^verbatim>\<open>undefined\<close>, and the prototype object is
  the prototype already; it would change the prototype for \<^verbatim>\<open>null\<close> or a function, and
  that is not modelled. Such a value can only come from a row with an own property
  \<^verbatim>\<open>__proto__\<close>, which the parser, building its rows by assignment, never makes.
\<close>

definition obj_set :: "obj \<Rightarrow> string \<Rightarrow> jsval \<Rightarrow> obj" where
  "obj_set ob k v =
     (if k = ''__proto__'' \<and> k \<notin> fst ` set ob then ob else AList.update k v ob)"

text \<open>
  \<^verbatim>\<open>Object.keys\<close>: the keys that are array indices (the decimal numerals of the
  numbers below \<open>2\<^sup>3\<^sup>2 - 1\<close>) come first, in ascending order, then the other keys in
  the order of their creation.
\<close>

definition is_digit :: "char \<Rightarrow> bool" where
  "is_digit c = (48 \<le> (of_char c :: nat) \<and> (of_char c :: nat) \<le> 57)"

definition digits_value :: "string \<Rightarrow> int" where
  "digits_value k = foldl (\<lambda>n c. 10 * n + ((of_char c :: int) - 48)) 0 k"

definition is_index :: "string \<Rightarrow> bool" where
  "is_index k =
     (k \<noteq> [] \<and> list_all is_digit k \<and> (k = ''0'' \<or> hd k \<noteq> CHR ''0'') \<and>
      digits_value k < 4294967295)"

definition obj_keys :: "obj \<Rightarrow> string list" where
  "obj_keys ob =
     sort_key digits_value (filter is_index (map fst ob)) @
     filter (\<lambda>k. \<not> is_index k) (map fst ob)"

text \<open>
  \<^verbatim>\<open>Object.fromEntries\<close>: the pairs are taken from left to right, and each one defines
  an own property, also under the name \<^verbatim>\<open>__proto__\<close>.
\<close>

definition fromEntries :: "(string \<times> jsval) list \<Rightarrow> obj" where
  "fromEntries kvs = fold (\<lambda>(k, v) ob. AList.update k v ob) kvs []"

text \<open>
  A \<^verbatim>\<open>Set\<close> iterates in insertion order and holds each value once: a list, with
  \<^verbatim>\<open>add\<close> a no-op on a member.
\<close>

definition set_add :: "'a list \<Rightarrow> 'a \<Rightarrow> 'a list" where
  "set_add s x = (if x \<in> set s then s else s @ [x])"

subsection \<open>Configuration\<close>

definition DROP_HEADERS :: "string set" where
  "DROP_HEADERS = {
     ''Number TO'', ''Status'', ''High Value'', ''Sender ID'', ''Sender Name'',
     ''Sender Type'', ''Sender'',
     ''Receiver Name'',
     ''Station Type'', ''Current Station'', ''TO Order'', ''Quantity'', ''TO Direction'',
     ''Volumetric Weight'', ''Weight'',
     ''Line Hual Trip Number'', ''Operator'', ''Create Time'', ''Complete Time'',
     ''Driver Scan Time'', ''Journey Type'', ''Remark'', ''Receive Status'', ''TO Remark''}"

definition PREVIEW_LIMIT :: nat where
  "PREVIEW_LIMIT = 50"

subsection \<open>The state of one upload job\<close>

record distinct_sets =
  currentStation :: "jsval list"
  receiverType :: "jsval list"
  journeyType :: "jsval list"
  receiveStatus :: "jsval list"

text \<open>
  The variables the handler closes over. \<open>written\<close> is the sequence of records passed
  to \<^verbatim>\<open>csvStringifier.write\<close>, in order.
\<close>

record job_state =
  canonicalHeaders :: "string list option"
  wroteHeader :: bool
  preview :: "obj list"
  distinct_vals :: distinct_sets
  written :: "obj list"

definition init_state :: job_state where
  "init_state = \<lparr>canonicalHeaders = None, wroteHeader = False, preview = [],
     distinct_vals = \<lparr>currentStation = [], receiverType = [], journeyType = [],
       receiveStatus = []\<rparr>,
     written = []\<rparr>"

subsection \<open>The parser's event handlers\<close>

text \<open>\<^verbatim>\<open>headers.filter(h => !DROP_HEADERS.has(h))\<close>\<close>

definition keep_headers :: "string list \<Rightarrow> string list" where
  "keep_headers headers = filter (\<lambda>h. h \<notin> DROP_HEADERS) headers"

text \<open>\<^verbatim>\<open>Object.fromEntries(canonicalHeaders.map(h => [h, h]))\<close>\<close>

definition header_record :: "string list \<Rightarrow> obj" where
  "header_record ch = fromEntries (map (\<lambda>h. (h, JStr h)) ch)"

definition on_headers :: "job_state \<Rightarrow> string list \<Rightarrow> job_state" where
  "on_headers s headers =
     (case canonicalHeaders s of
        None \<Rightarrow>
          (let ch = keep_headers headers
           in s\<lparr>canonicalHeaders := Some ch,
                written := written s @ [header_record ch],
                wroteHeader := True\<rparr>)
      | Some _ \<Rightarrow> s)"

text \<open>
  The loop \<^verbatim>\<open>for (const h of canonicalHeaders) outRow[h] = row[h] !== undefined ? row[h] : ''\<close>.
\<close>

definition build_outRow :: "obj \<Rightarrow> string list \<Rightarrow> obj" where
  "build_outRow row ch =
     fold (\<lambda>h outRow.
             obj_set outRow h (if obj_get row h \<noteq> JUndefined then obj_get row h else JStr []))
          ch []"

fun pick :: "obj \<Rightarrow> string list \<Rightarrow> jsval" where
  "pick rowObj [] = JStr []"
| "pick rowObj (k # possibleNames) =
     (if obj_get rowObj k \<noteq> JUndefined \<and> obj_get rowObj k \<noteq> JStr []
      then obj_get rowObj k
      else pick rowObj possibleNames)"

definition currentStationVal :: "obj \<Rightarrow> obj \<Rightarrow> jsval" where
  "currentStationVal outRow row =
     js_or (obj_get outRow ''Current Station'')
           (pick row [''Current Station'', ''current station'', ''current_station''])"

definition receiverTypeVal :: "obj \<Rightarrow> jsval" where
  "receiverTypeVal row =
     pick row [''Receiver type'', ''Receiver Type'', ''receiver type'', ''receiver_type'',
               ''Receiver type'']"

definition journeyTypeVal :: "obj \<Rightarrow> jsval" where
  "journeyTypeVal row = pick row [''Journey Type'', ''Journey type'', ''journey type'']"

definition receiveStatusVal :: "obj \<Rightarrow> jsval" where
  "receiveStatusVal row = pick row [''Receive Status'', ''Receive status'', ''receive status'']"

text \<open>\<^verbatim>\<open>if (v) set.add(v)\<close>\<close>

definition add_if :: "jsval list \<Rightarrow> jsval \<Rightarrow> jsval list" where
  "add_if s v = (if truthy v then set_add s v else s)"

definition collect :: "distinct_sets \<Rightarrow> obj \<Rightarrow> obj \<Rightarrow> distinct_sets" where
  "collect d outRow row =
     \<lparr>currentStation = add_if (currentStation d) (currentStationVal outRow row),
      receiverType = add_if (receiverType d) (receiverTypeVal row),
      journeyType = add_if (journeyType d) (journeyTypeVal row),
      receiveStatus = add_if (receiveStatus d) (receiveStatusVal row)\<rparr>"

definition on_data :: "job_state \<Rightarrow> obj \<Rightarrow> job_state" where
  "on_data s row =
     (case canonicalHeaders s of
        None \<Rightarrow> s
      | Some ch \<Rightarrow>
          (let outRow = build_outRow row ch
           in s\<lparr>distinct_vals := collect (distinct_vals s) outRow row,
                preview := (if length (preview s) < PREVIEW_LIMIT
                            then preview s @ [outRow] else preview s),
                written := written s @ [outRow]\<rparr>))"

subsection \<open>The stringifier\<close>

text \<open>
  The records go through \<^verbatim>\<open>stringify({ header: true })\<close> into the file. This is the
  \<^verbatim>\<open>csv-stringify\<close> library, modelled as documented: with no \<^verbatim>\<open>columns\<close> option the
  columns are the keys of the first record written; with \<^verbatim>\<open>header: true\<close> a line with
  the column names is emitted before the first record; each record then gives one line,
  the values of the columns in order. A string is written as it is, \<^verbatim>\<open>undefined\<close> and
  \<^verbatim>\<open>null\<close> as empty cells, an object as its JSON text, which for the prototype object is
  \<^verbatim>\<open>{}\<close>. A function cannot be cast: the stringifier raises an error on the record and
  emits nothing more. A line is the list of its cells; quoting is not modelled.
\<close>

fun castable :: "jsval \<Rightarrow> bool" where
  "castable (JInherited n) = (n = ''__proto__'')"
| "castable v = True"

fun cell :: "jsval \<Rightarrow> string" where
  "cell JUndefined = []"
| "cell JNull = []"
| "cell (JStr s) = s"
| "cell (JInherited n) = ''{}''"

definition castable_record :: "string list \<Rightarrow> obj \<Rightarrow> bool" where
  "castable_record columns rcd = list_all (\<lambda>c. castable (obj_get rcd c)) columns"

definition stringify :: "bool \<Rightarrow> obj list \<Rightarrow> string list list" where
  "stringify header records =
     (case records of
        [] \<Rightarrow> []
      | r # _ \<Rightarrow>
          (let columns = obj_keys r
           in (if header then [columns] else []) @
              map (\<lambda>rcd. map (\<lambda>c. cell (obj_get rcd c)) columns)
                (takeWhile (castable_record columns) records)))"

text \<open>Whether the stringifier raises its error on one of the records.\<close>

definition cast_error :: "obj list \<Rightarrow> bool" where
  "cast_error records =
     (case records of
        [] \<Rightarrow> False
      | r # _ \<Rightarrow> \<not> list_all (castable_record (obj_keys r)) records)"

definition cast_message :: string where
  "cast_message =
     ''Error: Invalid Casting Value: returned value must return a string, an object, null or undefined, got undefined''"

subsection \<open>Entries and the sequential loop\<close>

text \<open>
  What happens while one entry is read. The parser emits \<^verbatim>\<open>headers\<close> and \<^verbatim>\<open>data\<close>
  events; the handlers accept them in any order and number. Then one of three things
  ends the reading:
  \<^item> \<open>End\<close>: the parser's \<^verbatim>\<open>end\<close> event, which resolves the promise the loop awaits;
  \<^item> \<open>Error\<close>: the parser's \<^verbatim>\<open>error\<close> event, which rejects it. The parser is made
    without the \<^verbatim>\<open>strict\<close> option, and then text that is not well-formed CSV does not
    make it emit this event;
  \<^item> \<open>Uncaught\<close>: an \<^verbatim>\<open>error\<close> event on a stream that has no listener for it, which
    ends the process: the entry's own stream, whose errors \<^verbatim>\<open>pipe\<close> does not pass on to
    the parser, or the output stream, which gets its listener only after the loop.

  \<open>flushed\<close> is the number of lines of output that are in the file in full, should
  the process or the output stream stop while this entry is the last one read; what is
  still in a buffer at that moment is lost.
\<close>

datatype event = Headers "string list" | Data obj

datatype ending = End | Error string | Uncaught string

datatype entry_type = File | Directory

record entry =
  path :: string
  ftype :: entry_type
  events :: "event list"
  ending :: ending
  flushed :: nat

fun on_event :: "job_state \<Rightarrow> event \<Rightarrow> job_state" where
  "on_event s (Headers headers) = on_headers s headers"
| "on_event s (Data row) = on_data s row"

definition drain :: "job_state \<Rightarrow> entry \<Rightarrow> job_state" where
  "drain s e = foldl on_event s (events e)"

text \<open>
  How the loop \<^verbatim>\<open>for (const entry of csvEntries) await new Promise(...)\<close> stops: it
  runs to its end, or a rejected promise throws out of it, or the process dies of an
  error nobody listens to, with so many lines of output in the file.
\<close>

datatype stop = Completed | Rejected string | Died string nat

text \<open>
  The stringifier has no \<^verbatim>\<open>error\<close> listener either, so a record it cannot cast ends
  the process while the entry that gave the record is read.
\<close>

fun run_entries :: "job_state \<Rightarrow> entry list \<Rightarrow> stop \<times> job_state" where
  "run_entries s [] = (Completed, s)"
| "run_entries s (e # es) =
     (if cast_error (written (drain s e)) then (Died cast_message (flushed e), drain s e)
      else
        (case ending e of
           End \<Rightarrow> run_entries (drain s e) es
         | Error err \<Rightarrow> (Rejected err, drain s e)
         | Uncaught err \<Rightarrow> (Died err (flushed e), drain s e)))"

subsection \<open>The files\<close>

text \<open>
  The two files the handler touches: the uploaded zip and the file at
  \<^verbatim>\<open>consolidatedPath\<close>, \<open>None\<close> while it does not exist, and else the lines it holds
  in full.
\<close>

record disk =
  zip_present :: bool
  consolidated :: "string list list option"

subsection \<open>POST /api/upload\<close>

text \<open>
  The uploaded archive: what \<^verbatim>\<open>unzipper.Open.file\<close> gives (\<open>Inl\<close> when it throws) and
  what the output stream does once the stringifier is ended and the handler waits for it
  with both listeners attached: \<^verbatim>\<open>finish\<close> is \<open>End\<close>, an \<^verbatim>\<open>error\<close> event anything else.
\<close>

record archive =
  open_result :: "string + entry list"
  finish :: ending

record job_result =
  res_preview :: "obj list"
  res_distinct :: distinct_sets
  res_consolidatedPath :: string

text \<open>
  What the client gets. \<open>Crashed\<close> is no answer at all: the process has ended on the
  uncaught error.
\<close>

datatype response =
    Status400 string
  | Status404 string
  | Status500 string
  | UploadJson job_result
  | PreviewJson "obj list"
  | Crashed string

text \<open>
  \<^verbatim>\<open>toLowerCase\<close> on the ASCII letters; the other characters stay as they are, and
  none of them would become a character of \<^verbatim>\<open>.csv\<close>.
\<close>

definition toLowerCase :: "string \<Rightarrow> string" where
  "toLowerCase s =
     map (\<lambda>c. if 65 \<le> (of_char c :: nat) \<and> (of_char c :: nat) \<le> 90
              then char_of ((of_char c :: nat) + 32) else c) s"

definition endsWith :: "string \<Rightarrow> string \<Rightarrow> bool" where
  "endsWith s suf = (take (length suf) (rev s) = rev suf)"

text \<open>\<^verbatim>\<open>f.path && f.type === 'File' && f.path.toLowerCase().endsWith('.csv')\<close>\<close>

definition is_csv :: "entry \<Rightarrow> bool" where
  "is_csv f = (path f \<noteq> [] \<and> ftype f = File \<and> endsWith (toLowerCase (path f)) ''.csv'')"

definition toArrayLimit :: "jsval list \<Rightarrow> nat \<Rightarrow> jsval list" where
  "toArrayLimit s limit =
     take limit (filter (\<lambda>x. x \<noteq> JUndefined \<and> x \<noteq> JNull \<and> x \<noteq> JStr []) s)"

definition consolidatedFilename :: "string \<Rightarrow> string" where
  "consolidatedFilename guid = ''consolidated-'' @ guid @ ''.csv''"

definition make_result :: "string \<Rightarrow> job_state \<Rightarrow> job_result" where
  "make_result guid s =
     \<lparr>res_preview = preview s,
      res_distinct =
        \<lparr>currentStation = toArrayLimit (currentStation (distinct_vals s)) 1000,
         receiverType = toArrayLimit (receiverType (distinct_vals s)) 1000,
         journeyType = toArrayLimit (journeyType (distinct_vals s)) 1000,
         receiveStatus = toArrayLimit (receiveStatus (distinct_vals s)) 1000\<rparr>,
      res_consolidatedPath = ''/data/'' @ consolidatedFilename guid\<rparr>"

text \<open>
  The handler. The file at \<^verbatim>\<open>consolidatedPath\<close> is opened with flag \<^verbatim>\<open>w\<close> once the
  archive is known to hold a CSV entry. Every path that answers removes the uploaded
  zip; the \<^verbatim>\<open>catch\<close> block does nothing else before it answers 500 with
  \<^verbatim>\<open>String(err)\<close>, the string an error is carried as here. After a rejected promise the
  process lives on and the lines written so far reach the file. When the output stream
  fails or the process dies, the file keeps the lines that had reached it, and a dead
  process removes nothing.
\<close>

definition upload_handler :: "string \<Rightarrow> disk \<Rightarrow> archive option \<Rightarrow> response \<times> disk" where
  "upload_handler guid d req_file =
     (case req_file of
        None \<Rightarrow> (Status400 ''No file uploaded'', d)
      | Some a \<Rightarrow>
          (case open_result a of
             Inl err \<Rightarrow> (Status500 err, d\<lparr>zip_present := False\<rparr>)
           | Inr files \<Rightarrow>
               (let csvEntries = filter is_csv files
                in if length csvEntries = 0
                   then (Status400 ''No CSV files found inside the zip'',
                         d\<lparr>zip_present := False\<rparr>)
                   else
                     (case run_entries init_state csvEntries of
                        (Died err n, s) \<Rightarrow>
                          (Crashed err,
                           d\<lparr>consolidated := Some (take n (stringify True (written s)))\<rparr>)
                      | (Rejected err, s) \<Rightarrow>
                          (Status500 err,
                           d\<lparr>consolidated := Some (stringify True (written s)),
                             zip_present := False\<rparr>)
                      | (Completed, s) \<Rightarrow>
                          (case finish a of
                             End \<Rightarrow>
                               (UploadJson (make_result guid s),
                                d\<lparr>consolidated := Some (stringify True (written s)),
                                  zip_present := False\<rparr>)
                           | Error err \<Rightarrow>
                               (Status500 err,
                                d\<lparr>consolidated :=
                                     Some (take (flushed (last csvEntries))
                                             (stringify True (written s))),
                                  zip_present := False\<rparr>)
                           | Uncaught err \<Rightarrow>
                               (Status500 err,
                                d\<lparr>consolidated :=
                                     Some (take (flushed (last csvEntries))
                                             (stringify True (written s))),
                                  zip_present := False\<rparr>))))))"

subsection \<open>GET /api/preview\<close>

text \<open>
  \<^verbatim>\<open>path.basename\<close> and \<^verbatim>\<open>path.join\<close> of Node, on POSIX: \<^verbatim>\<open>basename\<close> drops trailing
  slashes and returns what follows the last remaining slash; \<^verbatim>\<open>join\<close> puts a slash
  between its non-empty arguments and normalises the result, which resolves the
  segments \<^verbatim>\<open>.\<close> and \<^verbatim>\<open>..\<close>.
\<close>

definition basename :: "string \<Rightarrow> string" where
  "basename p =
     rev (takeWhile (\<lambda>c. c \<noteq> CHR ''/'') (dropWhile (\<lambda>c. c = CHR ''/'') (rev p)))"

fun split_slash :: "string \<Rightarrow> string list" where
  "split_slash [] = [[]]"
| "split_slash (c # cs) =
     (if c = CHR ''/'' then [] # split_slash cs
      else (case split_slash cs of
              [] \<Rightarrow> [[c]]
            | seg # segs \<Rightarrow> (c # seg) # segs))"

fun join_slash :: "string list \<Rightarrow> string" where
  "join_slash [] = []"
| "join_slash [seg] = seg"
| "join_slash (seg # segs) = seg @ ''/'' @ join_slash segs"

text \<open>
  The segments are pushed on a stack (\<open>acc\<close>, innermost first); \<^verbatim>\<open>..\<close> pops one, and
  above the root it is dropped when the path is absolute and kept otherwise.
\<close>

fun normalizeString :: "bool \<Rightarrow> string list \<Rightarrow> string list \<Rightarrow> string list" where
  "normalizeString isAbsolute acc [] = rev acc"
| "normalizeString isAbsolute acc (seg # segs) =
     (if seg = [] \<or> seg = ''.'' then normalizeString isAbsolute acc segs
      else if seg = ''..'' then
        (case acc of
           [] \<Rightarrow> if isAbsolute then normalizeString isAbsolute [] segs
                 else normalizeString isAbsolute [''..''] segs
         | seg' # acc' \<Rightarrow>
             if seg' = ''..'' then normalizeString isAbsolute (''..'' # acc) segs
             else normalizeString isAbsolute acc' segs)
      else normalizeString isAbsolute (seg # acc) segs)"

definition normalize :: "string \<Rightarrow> string" where
  "normalize p =
     (if p = [] then ''.''
      else
        (let isAbsolute = (hd p = CHR ''/'');
             trailing = (last p = CHR ''/'');
             body = join_slash (normalizeString isAbsolute [] (split_slash p))
         in if body = [] then (if isAbsolute then ''/'' else if trailing then ''./'' else ''.'')
            else (if isAbsolute then ''/'' else []) @ body @ (if trailing then ''/'' else [])))"

definition path_join :: "string \<Rightarrow> string \<Rightarrow> string" where
  "path_join a b =
     (if a = [] \<and> b = [] then ''.''
      else if a = [] then normalize b
      else if b = [] then normalize a
      else normalize (a @ ''/'' @ b))"

text \<open>A path lies inside a directory when it continues the directory's path below it.\<close>

definition inside_dir :: "string \<Rightarrow> string \<Rightarrow> bool" where
  "inside_dir dir p = (prefix (dir @ ''/'') p \<and> length (dir @ ''/'') < length p)"

text \<open>
  The limit is \<^verbatim>\<open>Number(req.query.limit || 50)\<close>, a JavaScript number, and the test
  \<^verbatim>\<open>out.length < limit\<close> compares the length with it.
\<close>

datatype jsnum = NaN | Fin rat | PosInf | NegInf

fun length_lt :: "nat \<Rightarrow> jsnum \<Rightarrow> bool" where
  "length_lt n NaN = False"
| "length_lt n (Fin q) = (of_nat n < q)"
| "length_lt n PosInf = True"
| "length_lt n NegInf = False"

definition push_row :: "jsnum \<Rightarrow> obj list \<Rightarrow> obj \<Rightarrow> obj list" where
  "push_row limit out row = (if length_lt (length out) limit then out @ [row] else out)"

text \<open>
  The surroundings of the preview handler: the output directory, which paths exist, and
  what streaming a path through the parser gives: its rows, and then the parser's
  \<^verbatim>\<open>end\<close>, the parser's \<^verbatim>\<open>error\<close>, or an error of the read stream. The handler's
  \<^verbatim>\<open>error\<close> listener is on the parser that \<^verbatim>\<open>pipe\<close> returns, so an error of the read
  stream is not caught and ends the process.
\<close>

record preview_env =
  DATA_DIR :: string
  existsSync :: "string \<Rightarrow> bool"
  read_rows :: "string \<Rightarrow> obj list \<times> ending"

definition resolve_preview :: "string \<Rightarrow> string \<Rightarrow> string" where
  "resolve_preview data_dir file = path_join data_dir (basename file)"

definition preview_handler :: "preview_env \<Rightarrow> string option \<Rightarrow> jsnum \<Rightarrow> response" where
  "preview_handler env file limit =
     (case file of
        None \<Rightarrow> Status400 ''file query param required''
      | Some f \<Rightarrow>
          if f = [] then Status400 ''file query param required''
          else
            (let abs = resolve_preview (DATA_DIR env) f
             in if \<not> existsSync env abs then Status404 ''file not found''
                else
                  (case read_rows env abs of
                     (rows, End) \<Rightarrow> PreviewJson (foldl (push_row limit) [] rows)
                   | (rows, Error err) \<Rightarrow> Status500 err
                   | (rows, Uncaught err) \<Rightarrow> Crashed err)))"

subsection \<open>Notions used to state the properties\<close>

text \<open>The first \<^verbatim>\<open>headers\<close> event of a sequence of events, if there is one.\<close>

fun first_headers :: "event list \<Rightarrow> string list option" where
  "first_headers [] = None"
| "first_headers (Headers headers # evs) = Some headers"
| "first_headers (Data row # evs) = first_headers evs"

fun data_rows :: "event list \<Rightarrow> obj list" where
  "data_rows [] = []"
| "data_rows (Headers headers # evs) = data_rows evs"
| "data_rows (Data row # evs) = row # data_rows evs"

text \<open>The rows that arrive after the first \<^verbatim>\<open>headers\<close> event.\<close>

fun rows_after_headers :: "event list \<Rightarrow> obj list" where
  "rows_after_headers [] = []"
| "rows_after_headers (Headers headers # evs) = data_rows evs"
| "rows_after_headers (Data row # evs) = rows_after_headers evs"

text \<open>Whether the upload was answered with its result.\<close>

fun succeeded :: "response \<Rightarrow> bool" where
  "succeeded (UploadJson r) = True"
| "succeeded other = False"

text \<open>
  The records a sequence of events should put on the stringifier: the header record of
  the first header list, then the projection of every later row.
\<close>

definition expected_written :: "event list \<Rightarrow> obj list" where
  "expected_written evs =
     (case first_headers evs of
        None \<Rightarrow> []
      | Some H \<Rightarrow>
          header_record (keep_headers H) #
          map (\<lambda>row. build_outRow row (keep_headers H)) (rows_after_headers evs))"

text \<open>A collection without \<^verbatim>\<open>undefined\<close> and without the empty string.\<close>

definition clean :: "jsval list \<Rightarrow> bool" where
  "clean xs = (JUndefined \<notin> set xs \<and> JStr [] \<notin> set xs)"

definition all_clean :: "distinct_sets \<Rightarrow> bool" where
  "all_clean d = (clean (currentStation d) \<and> clean (receiverType d) \<and>
                  clean (journeyType d) \<and> clean (receiveStatus d))"

definition all_capped :: "distinct_sets \<Rightarrow> bool" where
  "all_capped d = (length (currentStation d) \<le> 1000 \<and> length (receiverType d) \<le> 1000 \<and>
                   length (journeyType d) \<le> 1000 \<and> length (receiveStatus d) \<le> 1000)"

text \<open>Two states that differ at most in the preview.\<close>

definition same_but_preview :: "job_state \<Rightarrow> job_state \<Rightarrow> bool" where
  "same_but_preview s t =
     (canonicalHeaders s = canonicalHeaders t \<and> wroteHeader s = wroteHeader t \<and>
      distinct_vals s = distinct_vals t \<and> written s = written t)"

definition no_current_station :: "job_state \<Rightarrow> bool" where
  "no_current_station s =
     (case canonicalHeaders s of None \<Rightarrow> True | Some ch \<Rightarrow> ''Current Station'' \<notin> set ch)"

text \<open>
  What \<^verbatim>\<open>path.resolve\<close> returns: an absolute, normalised path without a trailing
  slash.
\<close>

definition resolved_dir :: "string \<Rightarrow> bool" where
  "resolved_dir dir =
     (dir \<noteq> [] \<and> hd dir = CHR ''/'' \<and> last dir \<noteq> CHR ''/'' \<and> normalize dir = dir)"

subsection \<open>Example inputs\<close>

definition ex_first :: entry where
  "ex_first =
     \<lparr>path = ''exports/a.CSV'', ftype = File,
      events = [Headers [''A'', ''Status'', ''B''],
                Data [(''A'', JStr ''1''), (''Status'', JStr ''ok''), (''B'', JStr ''2'')]],
      ending = End, flushed = 2\<rparr>"

definition ex_second :: entry where
  "ex_second =
     \<lparr>path = ''exports/b.csv'', ftype = File,
      events = [Headers [''B'', ''A'', ''D''],
                Data [(''B'', JStr ''4''), (''A'', JStr ''3''), (''D'', JStr ''9'')]],
      ending = End, flushed = 3\<rparr>"


text \<open>The file \<^verbatim>\<open>A,valueOf\<close> / \<^verbatim>\<open>1\<close>: its only row has no second cell.\<close>

definition ex_inherited :: entry where
  "ex_inherited =
     \<lparr>path = ''exports/v.csv'', ftype = File,
      events = [Headers [''A'', ''valueOf''], Data [(''A'', JStr ''1'')]],
      ending = End, flushed = 0\<rparr>"

definition ex_stations :: entry where
  "ex_stations =
     \<lparr>path = ''exports/d.csv'', ftype = File,
      events = [Headers [''Receiver type'', ''Current Station'', ''Journey Type'',
                         ''Receive Status'', ''A''],
                Data [(''Receiver type'', JStr ''Hub''), (''Current Station'', JStr ''SOC 5''),
                      (''Journey Type'', JStr []), (''Receive Status'', JStr ''Received''),
                      (''A'', JStr ''1'')],
                Data [(''Receiver type'', JStr ''Hub''), (''Current Station'', JStr ''SOC 5'')]],
      ending = End, flushed = 3\<rparr>"

definition ex_readme :: entry where
  "ex_readme =
     \<lparr>path = ''exports/readme.txt'', ftype = File, events = [], ending = End, flushed = 0\<rparr>"

definition ex_folder :: entry where
  "ex_folder =
     \<lparr>path = ''exports/'', ftype = Directory, events = [], ending = End, flushed = 0\<rparr>"

definition ex_disk :: disk where
  "ex_disk = \<lparr>zip_present = True, consolidated = None\<rparr>"

text \<open>A state whose preview is full.\<close>

definition ex_full :: job_state where
  "ex_full = init_state\<lparr>canonicalHeaders := Some [''A'', ''B''], preview := replicate 50 []\<rparr>"

definition ex_env :: preview_env where
  "ex_env =
     \<lparr>DATA_DIR = ''/srv/app/data'',
      existsSync = (\<lambda>p. p = ''/srv/app'' \<or> p = ''/srv/app/data'' \<or>
                         p = ''/srv/app/data/consolidated-g.csv''),
      read_rows = (\<lambda>p. if p = ''/srv/app/data/consolidated-g.csv''
                        then ([[(''A'', JStr ''1''), (''B'', JStr ''2'')],
                               [(''A'', JStr ''3''), (''B'', JStr ''4'')],
                               [(''A'', JStr ''5''), (''B'', JStr ''6'')]], End)
                        else ([], Uncaught ''Error: EISDIR: illegal operation on a directory, read''))\<rparr>"

section \<open>Properties\<close>

subsection \<open>Objects and the row projection\<close>

lemma map_of_fold_set:
  "''__proto__'' \<notin> fst ` set acc \<Longrightarrow>
   map_of (fold (\<lambda>h ob. obj_set ob h (f h)) ch acc) k =
     (if k \<in> set ch \<and> k \<noteq> ''__proto__'' then Some (f k) else map_of acc k)"
proof (induction ch arbitrary: acc)
  case Nil
  then show ?case by simp
next
  case (Cons h ch)
  have "''__proto__'' \<notin> fst ` set (obj_set acc h (f h))"
    using Cons.prems by (auto simp: obj_set_def dom_update)
  from Cons.IH [OF this] Cons.prems show ?case
    by (auto simp: obj_set_def update_conv')
qed

lemma keys_fold_set:
  "''__proto__'' \<notin> fst ` set acc \<Longrightarrow>
   fst ` set (fold (\<lambda>h ob. obj_set ob h (f h)) ch acc) =
     (set ch - {''__proto__''}) \<union> fst ` set acc"
proof (induction ch arbitrary: acc)
  case Nil
  then show ?case by simp
next
  case (Cons h ch)
  have "''__proto__'' \<notin> fst ` set (obj_set acc h (f h))"
    using Cons.prems by (auto simp: obj_set_def dom_update)
  from Cons.IH [OF this] Cons.prems show ?case
    by (auto simp: obj_set_def dom_update)
qed

lemma fold_set_cong:
  "(\<And>h. h \<in> set ch \<Longrightarrow> f h = g h) \<Longrightarrow>
   fold (\<lambda>h ob. obj_set ob h (f h)) ch acc = fold (\<lambda>h ob. obj_set ob h (g h)) ch acc"
  by (induction ch arbitrary: acc) auto

lemma set_obj_keys: "set (obj_keys ob) = fst ` set ob"
  by (auto simp: obj_keys_def)

lemma map_of_build_outRow:
  "map_of (build_outRow row ch) h =
     (if h \<in> set ch \<and> h \<noteq> ''__proto__''
      then Some (if obj_get row h \<noteq> JUndefined then obj_get row h else JStr [])
      else None)"
  unfolding build_outRow_def by (simp add: map_of_fold_set)

lemma obj_get_build_outRow:
  "obj_get (build_outRow row ch) h =
     (if h \<in> set ch \<and> h \<noteq> ''__proto__''
      then (if obj_get row h \<noteq> JUndefined then obj_get row h else JStr [])
      else if h \<in> set prototype_names then JInherited h else JUndefined)"
  unfolding obj_get_def [of "build_outRow row ch"] map_of_build_outRow by simp

lemma keys_build_outRow: "set (obj_keys (build_outRow row ch)) = set ch - {''__proto__''}"
  unfolding build_outRow_def set_obj_keys by (simp add: keys_fold_set)

text \<open>
  For canonical names that are not names of \<^verbatim>\<open>Object.prototype\<close> the projection is
  what it is meant to be: the keys are the canonical names, each holds the row's own
  value or the empty string, and rows that agree on the canonical names project alike.
\<close>

lemma build_outRow_plain_columns:
  assumes "set ch \<inter> set prototype_names = {}"
  shows "set (obj_keys (build_outRow row ch)) = set ch"
    and "h \<in> set ch \<Longrightarrow>
         obj_get (build_outRow row ch) h =
           (case map_of row h of Some v \<Rightarrow> (if v \<noteq> JUndefined then v else JStr [])
            | None \<Rightarrow> JStr [])"
    and "(\<And>h. h \<in> set ch \<Longrightarrow> obj_get row' h = obj_get row h) \<Longrightarrow>
         build_outRow row' ch = build_outRow row ch"
proof -
  have np: "''__proto__'' \<notin> set ch"
    using assms by (auto simp: prototype_names_def)
  then show "set (obj_keys (build_outRow row ch)) = set ch"
    by (simp add: keys_build_outRow)
  show "obj_get (build_outRow row ch) h =
           (case map_of row h of Some v \<Rightarrow> (if v \<noteq> JUndefined then v else JStr [])
            | None \<Rightarrow> JStr [])" if "h \<in> set ch"
  proof -
    have "h \<notin> set prototype_names" "h \<noteq> ''__proto__''"
      using assms that np by auto
    then have "obj_get row h = (case map_of row h of Some v \<Rightarrow> v | None \<Rightarrow> JUndefined)"
      by (simp add: obj_get_def)
    moreover have "obj_get (build_outRow row ch) h =
        (if obj_get row h \<noteq> JUndefined then obj_get row h else JStr [])"
      using that \<open>h \<noteq> ''__proto__''\<close> by (simp add: obj_get_build_outRow)
    ultimately show ?thesis
      by (simp split: option.splits)
  qed
  show "build_outRow row' ch = build_outRow row ch"
    if "\<And>h. h \<in> set ch \<Longrightarrow> obj_get row' h = obj_get row h"
    unfolding build_outRow_def using that by (auto intro!: fold_set_cong)
qed

text \<open>
  Claim C5. The projection is not the claimed one for every canonical name. A row of
  the file \<^verbatim>\<open>A,valueOf\<close> / \<^verbatim>\<open>1\<close> has no cell for the column \<^verbatim>\<open>valueOf\<close>, and the
  test \<^verbatim>\<open>row[h] !== undefined\<close> finds the function it inherits: the projected row holds
  that function, not the empty string. And a canonical name \<^verbatim>\<open>__proto__\<close> gives the
  projected row no key at all.
\<close>

theorem inherited_column_projected:
  "build_outRow [(''A'', JStr ''1'')] [''A'', ''valueOf''] =
     [(''A'', JStr ''1''), (''valueOf'', JInherited ''valueOf'')] \<and>
   obj_get (build_outRow [(''A'', JStr ''1'')] [''A'', ''valueOf'']) ''valueOf'' \<noteq> JStr [] \<and>
   obj_keys (build_outRow [(''A'', JStr ''1'')] [''A'', ''__proto__'']) = [''A'']"
  by code_simp

subsection \<open>The canonical header\<close>

lemma canonical_on_data [simp]: "canonicalHeaders (on_data s row) = canonicalHeaders s"
  by (simp add: on_data_def Let_def split: option.splits)

lemma canonical_on_headers:
  "canonicalHeaders (on_headers s headers) =
     (case canonicalHeaders s of None \<Rightarrow> Some (keep_headers headers) | Some ch \<Rightarrow> Some ch)"
  by (simp add: on_headers_def Let_def split: option.splits)

lemma canonical_frozen_event:
  "canonicalHeaders s = Some ch \<Longrightarrow> canonicalHeaders (on_event s ev) = Some ch"
  by (cases ev) (simp_all add: canonical_on_headers)

lemma canonical_frozen_foldl:
  "canonicalHeaders s = Some ch \<Longrightarrow> canonicalHeaders (foldl on_event s evs) = Some ch"
  by (induction evs arbitrary: s) (simp_all add: canonical_frozen_event)

lemma canonical_frozen_run:
  "canonicalHeaders s = Some ch \<Longrightarrow> canonicalHeaders (snd (run_entries s es)) = Some ch"
  by (induction es arbitrary: s)
     (auto simp: drain_def canonical_frozen_foldl split: ending.splits)

lemma canonical_first_headers:
  "canonicalHeaders s = None \<Longrightarrow> first_headers evs = Some H \<Longrightarrow>
   canonicalHeaders (foldl on_event s evs) = Some (keep_headers H)"
proof (induction evs arbitrary: s)
  case Nil
  then show ?case by simp
next
  case (Cons ev evs)
  then show ?case
    by (cases ev) (auto simp: canonical_on_headers canonical_frozen_foldl)
qed

text \<open>
  Claim C1. When the first CSV entry emits the header list \<open>H\<close>, the canonical header
  after that entry is \<open>H\<close> without the members of the drop-set, in the order of \<open>H\<close>;
  it is still that list after any further entries, whatever headers they emit, and so
  at the end of the loop.
\<close>

theorem canonical_header_from_first_entry:
  assumes "first_headers (events e) = Some H"
  shows "canonicalHeaders (drain init_state e) = Some (filter (\<lambda>h. h \<notin> DROP_HEADERS) H) \<and>
         canonicalHeaders (snd (run_entries (drain init_state e) es)) =
           Some (filter (\<lambda>h. h \<notin> DROP_HEADERS) H) \<and>
         canonicalHeaders (snd (run_entries init_state (e # es))) =
           Some (filter (\<lambda>h. h \<notin> DROP_HEADERS) H)"
proof -
  have d: "canonicalHeaders (drain init_state e) = Some (keep_headers H)"
    unfolding drain_def
    by (rule canonical_first_headers [OF _ assms]) (simp add: init_state_def)
  then have r: "canonicalHeaders (snd (run_entries (drain init_state e) es)) =
      Some (keep_headers H)"
    by (rule canonical_frozen_run)
  have "canonicalHeaders (snd (run_entries init_state (e # es))) = Some (keep_headers H)"
    using d r by (cases "ending e") simp_all
  with d r show ?thesis by (simp add: keep_headers_def)
qed

theorem canonical_header_from_first_entry_witness:
  "first_headers (events ex_first) = Some [''A'', ''Status'', ''B''] \<and>
   canonicalHeaders (drain init_state ex_first) = Some [''A'', ''B''] \<and>
   canonicalHeaders (snd (run_entries init_state [ex_first, ex_second])) = Some [''A'', ''B'']"
proof -
  have h: "first_headers (events ex_first) = Some [''A'', ''Status'', ''B'']"
    by (simp add: ex_first_def)
  have k: "filter (\<lambda>h. h \<notin> DROP_HEADERS) [''A'', ''Status'', ''B''] = [''A'', ''B'']"
    by (simp add: DROP_HEADERS_def)
  note c = canonical_header_from_first_entry [OF h, of "[ex_second]", unfolded k]
  show ?thesis
    using h c by blast
qed

subsection \<open>The current-station value\<close>

lemma current_station_dropped: "''Current Station'' \<notin> set (keep_headers headers)"
  by (simp add: keep_headers_def DROP_HEADERS_def)

lemma no_current_station_step: "no_current_station s \<Longrightarrow> no_current_station (on_event s ev)"
  by (cases ev)
     (auto simp: no_current_station_def canonical_on_headers current_station_dropped
           split: option.splits)

lemma no_current_station_foldl:
  "no_current_station s \<Longrightarrow> no_current_station (foldl on_event s evs)"
  by (induction evs arbitrary: s) (auto simp: no_current_station_step)

lemma no_current_station_init: "no_current_station init_state"
  by (simp add: no_current_station_def init_state_def)

text \<open>
  Claim C10. In every state the job can reach, the canonical header does not contain
  \<^verbatim>\<open>Current Station\<close>, since the drop-set does. So the projected row reads
  \<^verbatim>\<open>undefined\<close> there, the value the aggregator resolves for a raw row is
  \<^verbatim>\<open>pick(row, ['Current Station', 'current station', 'current_station'])\<close>, and that is
  what the data handler offers to the current-station set.
\<close>

theorem currentStationVal_is_pick:
  assumes "canonicalHeaders (foldl on_event init_state evs) = Some ch"
  shows "obj_get (build_outRow row ch) ''Current Station'' = JUndefined \<and>
         currentStationVal (build_outRow row ch) row =
           pick row [''Current Station'', ''current station'', ''current_station''] \<and>
         currentStation (distinct_vals (on_data (foldl on_event init_state evs) row)) =
           add_if (currentStation (distinct_vals (foldl on_event init_state evs)))
             (pick row [''Current Station'', ''current station'', ''current_station''])"
proof -
  have "no_current_station (foldl on_event init_state evs)"
    by (rule no_current_station_foldl [OF no_current_station_init])
  with assms have notin: "''Current Station'' \<notin> set ch"
    by (simp add: no_current_station_def)
  then have undef: "obj_get (build_outRow row ch) ''Current Station'' = JUndefined"
    by (simp add: obj_get_build_outRow prototype_names_def)
  then have val: "currentStationVal (build_outRow row ch) row =
           pick row [''Current Station'', ''current station'', ''current_station'']"
    by (simp add: currentStationVal_def js_or_def)
  show ?thesis using undef val assms
    by (simp add: on_data_def Let_def collect_def)
qed

theorem currentStationVal_is_pick_witness:
  "canonicalHeaders (foldl on_event init_state (events ex_stations)) =
     Some [''Receiver type'', ''A''] \<and>
   currentStationVal
     (build_outRow [(''current_station'', JStr ''SOC 7''), (''A'', JStr ''2'')]
        [''Receiver type'', ''A''])
     [(''current_station'', JStr ''SOC 7''), (''A'', JStr ''2'')] =
   pick [(''current_station'', JStr ''SOC 7''), (''A'', JStr ''2'')]
     [''Current Station'', ''current station'', ''current_station''] \<and>
   pick [(''current_station'', JStr ''SOC 7''), (''A'', JStr ''2'')]
     [''Current Station'', ''current station'', ''current_station''] = JStr ''SOC 7''"
proof -
  have h: "canonicalHeaders (foldl on_event init_state (events ex_stations)) =
     Some [''Receiver type'', ''A'']"
    by code_simp
  note c = currentStationVal_is_pick
    [OF h, of "[(''current_station'', JStr ''SOC 7''), (''A'', JStr ''2'')]"]
  have p: "pick [(''current_station'', JStr ''SOC 7''), (''A'', JStr ''2'')]
     [''Current Station'', ''current station'', ''current_station''] = JStr ''SOC 7''"
    by (simp add: obj_get_def prototype_names_def)
  show ?thesis
    using h c p by blast
qed

subsection \<open>The distinct-value sets\<close>

lemma clean_add_if: "clean s \<Longrightarrow> clean (add_if s v)"
  by (cases v) (auto simp: clean_def add_if_def set_add_def)

lemma all_clean_collect: "all_clean d \<Longrightarrow> all_clean (collect d outRow row)"
  by (simp add: all_clean_def collect_def clean_add_if)

lemma distinct_on_headers [simp]: "distinct_vals (on_headers s headers) = distinct_vals s"
  by (simp add: on_headers_def Let_def split: option.splits)

lemma all_clean_event:
  "all_clean (distinct_vals s) \<Longrightarrow> all_clean (distinct_vals (on_event s ev))"
  by (cases ev) (auto simp: on_data_def Let_def all_clean_collect split: option.splits)

lemma all_clean_foldl:
  "all_clean (distinct_vals s) \<Longrightarrow> all_clean (distinct_vals (foldl on_event s evs))"
  by (induction evs arbitrary: s) (simp_all add: all_clean_event)

lemma all_clean_run:
  "all_clean (distinct_vals s) \<Longrightarrow> all_clean (distinct_vals (snd (run_entries s es)))"
  by (induction es arbitrary: s)
     (auto simp: drain_def all_clean_foldl split: ending.splits)

lemma all_clean_init: "all_clean (distinct_vals init_state)"
  by (simp add: all_clean_def clean_def init_state_def)

lemma clean_toArrayLimit: "clean (toArrayLimit s limit)"
  by (auto simp: clean_def toArrayLimit_def dest: in_set_takeD)

lemma length_toArrayLimit: "length (toArrayLimit s limit) \<le> limit"
  by (simp add: toArrayLimit_def)

lemma upload_json_result:
  "fst (upload_handler guid d req_file) = UploadJson r \<Longrightarrow> \<exists>s. r = make_result guid s"
  by (auto simp: upload_handler_def Let_def
           split: option.splits sum.splits if_splits prod.splits ending.splits stop.splits)

text \<open>
  Claim C7. After any sequence of parser events, and after any run of the loop, none of
  the four distinct-value sets holds \<^verbatim>\<open>undefined\<close> or the empty string; the array
  \<^verbatim>\<open>toArrayLimit\<close> makes of a set has at most 1000 elements; and so the four arrays of
  a successful response are free of both values and at most 1000 long.
\<close>

theorem distinct_sets_clean_and_capped:
  "all_clean (distinct_vals (foldl on_event init_state evs)) \<and>
   all_clean (distinct_vals (snd (run_entries init_state es))) \<and>
   length (toArrayLimit xs 1000) \<le> 1000 \<and>
   (fst (upload_handler guid d req_file) = UploadJson r \<longrightarrow>
      all_clean (res_distinct r) \<and> all_capped (res_distinct r))"
proof (intro conjI impI)
  show "all_clean (distinct_vals (foldl on_event init_state evs))"
    by (rule all_clean_foldl [OF all_clean_init])
  show "all_clean (distinct_vals (snd (run_entries init_state es)))"
    by (rule all_clean_run [OF all_clean_init])
  show "length (toArrayLimit xs 1000) \<le> 1000"
    by (rule length_toArrayLimit)
next
  assume "fst (upload_handler guid d req_file) = UploadJson r"
  then obtain s where r: "r = make_result guid s"
    using upload_json_result by blast
  show "all_clean (res_distinct r)"
    by (simp add: r make_result_def all_clean_def clean_toArrayLimit)
  show "all_capped (res_distinct r)"
    by (simp add: r make_result_def all_capped_def length_toArrayLimit)
qed

theorem distinct_sets_clean_and_capped_witness:
  "fst (upload_handler ''g'' ex_disk
         (Some \<lparr>open_result = Inr [ex_stations], finish = End\<rparr>)) =
     UploadJson
       \<lparr>res_preview = [[(''Receiver type'', JStr ''Hub''), (''A'', JStr ''1'')],
                       [(''Receiver type'', JStr ''Hub''), (''A'', JStr [])]],
        res_distinct =
          \<lparr>currentStation = [JStr ''SOC 5''], receiverType = [JStr ''Hub''],
           journeyType = [], receiveStatus = [JStr ''Received'']\<rparr>,
        res_consolidatedPath = ''/data/consolidated-g.csv''\<rparr> \<and>
   all_clean \<lparr>currentStation = [JStr ''SOC 5''], receiverType = [JStr ''Hub''],
              journeyType = [], receiveStatus = [JStr ''Received'']\<rparr> \<and>
   all_capped \<lparr>currentStation = [JStr ''SOC 5''], receiverType = [JStr ''Hub''],
               journeyType = [], receiveStatus = [JStr ''Received'']\<rparr>"
proof -
  have h: "fst (upload_handler ''g'' ex_disk
         (Some \<lparr>open_result = Inr [ex_stations], finish = End\<rparr>)) =
     UploadJson
       \<lparr>res_preview = [[(''Receiver type'', JStr ''Hub''), (''A'', JStr ''1'')],
                       [(''Receiver type'', JStr ''Hub''), (''A'', JStr [])]],
        res_distinct =
          \<lparr>currentStation = [JStr ''SOC 5''], receiverType = [JStr ''Hub''],
           journeyType = [], receiveStatus = [JStr ''Received'']\<rparr>,
        res_consolidatedPath = ''/data/consolidated-g.csv''\<rparr>"
    by code_simp
  from distinct_sets_clean_and_capped [of _ _ _ "''g''" ex_disk _ _] h
  show ?thesis
    by fastforce
qed

subsection \<open>The preview\<close>

lemma preview_on_headers [simp]: "preview (on_headers s headers) = preview s"
  by (simp add: on_headers_def Let_def split: option.splits)

lemma preview_bound_event:
  "length (preview s) \<le> PREVIEW_LIMIT \<Longrightarrow> length (preview (on_event s ev)) \<le> PREVIEW_LIMIT"
  by (cases ev) (auto simp: on_data_def Let_def split: option.splits)

lemma preview_bound_foldl:
  "length (preview s) \<le> PREVIEW_LIMIT \<Longrightarrow>
   length (preview (foldl on_event s evs)) \<le> PREVIEW_LIMIT"
  by (induction evs arbitrary: s) (simp_all add: preview_bound_event)

lemma preview_bound_run:
  "length (preview s) \<le> PREVIEW_LIMIT \<Longrightarrow>
   length (preview (snd (run_entries s es))) \<le> PREVIEW_LIMIT"
  by (induction es arbitrary: s)
     (auto simp: drain_def preview_bound_foldl split: ending.splits)

lemma preview_full_event:
  "PREVIEW_LIMIT \<le> length (preview s) \<Longrightarrow> preview (on_event s ev) = preview s"
  by (cases ev) (auto simp: on_data_def Let_def split: option.splits)

lemma preview_full_foldl:
  "PREVIEW_LIMIT \<le> length (preview s) \<Longrightarrow> preview (foldl on_event s evs) = preview s"
  by (induction evs arbitrary: s) (simp_all add: preview_full_event)

lemma preview_full_run:
  "PREVIEW_LIMIT \<le> length (preview s) \<Longrightarrow> preview (snd (run_entries s es)) = preview s"
  by (induction es arbitrary: s)
     (auto simp: drain_def preview_full_foldl split: ending.splits)

lemma same_but_preview_event:
  "same_but_preview s t \<Longrightarrow> same_but_preview (on_event s ev) (on_event t ev)"
  by (cases ev)
     (auto simp: same_but_preview_def on_data_def on_headers_def Let_def split: option.splits)

lemma same_but_preview_foldl:
  "same_but_preview s t \<Longrightarrow> same_but_preview (foldl on_event s evs) (foldl on_event t evs)"
  by (induction evs arbitrary: s t) (simp_all add: same_but_preview_event)

lemma same_but_preview_run:
  "same_but_preview s t \<Longrightarrow>
   fst (run_entries s es) = fst (run_entries t es) \<and>
   same_but_preview (snd (run_entries s es)) (snd (run_entries t es))"
proof (induction es arbitrary: s t)
  case Nil
  then show ?case by simp
next
  case (Cons e es)
  have d: "same_but_preview (drain s e) (drain t e)"
    unfolding drain_def by (rule same_but_preview_foldl [OF Cons.prems])
  then have w: "written (drain s e) = written (drain t e)"
    by (simp add: same_but_preview_def)
  show ?case
    using Cons.IH [OF d] d w by (cases "ending e") simp_all
qed

text \<open>
  Claim C8. The preview never has more than 50 rows, after any sequence of events and
  after any run of the loop. Once it has 50 rows no event and no further entry changes
  it: the cap is not reset between files. And the preview has no influence on the rest
  of the job: started from two states that differ only in their preview, the loop ends
  with the same error or success, writes the same records and collects the same
  distinct values.
\<close>

theorem preview_capped:
  "length (preview (foldl on_event init_state evs)) \<le> 50 \<and>
   length (preview (snd (run_entries init_state es))) \<le> 50 \<and>
   (length (preview s) = 50 \<longrightarrow>
      preview (on_event s ev) = preview s \<and>
      preview (snd (run_entries s es)) = preview s) \<and>
   fst (run_entries (s\<lparr>preview := p\<rparr>) es) = fst (run_entries s es) \<and>
   written (snd (run_entries (s\<lparr>preview := p\<rparr>) es)) = written (snd (run_entries s es)) \<and>
   distinct_vals (snd (run_entries (s\<lparr>preview := p\<rparr>) es)) =
     distinct_vals (snd (run_entries s es))"
proof (intro conjI impI)
  have i: "length (preview init_state) \<le> PREVIEW_LIMIT"
    by (simp add: init_state_def)
  show "length (preview (foldl on_event init_state evs)) \<le> 50"
    using preview_bound_foldl [OF i] by (simp add: PREVIEW_LIMIT_def)
  show "length (preview (snd (run_entries init_state es))) \<le> 50"
    using preview_bound_run [OF i] by (simp add: PREVIEW_LIMIT_def)
next
  assume "length (preview s) = 50"
  then have f: "PREVIEW_LIMIT \<le> length (preview s)"
    by (simp add: PREVIEW_LIMIT_def)
  show "preview (on_event s ev) = preview s"
    by (rule preview_full_event [OF f])
  show "preview (snd (run_entries s es)) = preview s"
    by (rule preview_full_run [OF f])
next
  have "same_but_preview (s\<lparr>preview := p\<rparr>) s"
    by (simp add: same_but_preview_def)
  then have r: "fst (run_entries (s\<lparr>preview := p\<rparr>) es) = fst (run_entries s es) \<and>
      same_but_preview (snd (run_entries (s\<lparr>preview := p\<rparr>) es)) (snd (run_entries s es))"
    by (rule same_but_preview_run)
  then show "fst (run_entries (s\<lparr>preview := p\<rparr>) es) = fst (run_entries s es)"
    by simp
  from r show "written (snd (run_entries (s\<lparr>preview := p\<rparr>) es)) =
      written (snd (run_entries s es))"
    by (simp add: same_but_preview_def)
  from r show "distinct_vals (snd (run_entries (s\<lparr>preview := p\<rparr>) es)) =
      distinct_vals (snd (run_entries s es))"
    by (simp add: same_but_preview_def)
qed

theorem preview_capped_witness:
  "length (preview ex_full) = 50 \<and>
   preview (on_event ex_full (Data [(''A'', JStr ''7'')])) = preview ex_full \<and>
   preview (snd (run_entries ex_full [ex_first, ex_second])) = preview ex_full \<and>
   written (snd (run_entries ex_full [ex_first, ex_second])) =
     [[(''A'', JStr ''1''), (''B'', JStr ''2'')], [(''A'', JStr ''3''), (''B'', JStr ''4'')]]"
proof -
  have h: "length (preview ex_full) = 50"
    by (simp add: ex_full_def)
  have w: "written (snd (run_entries ex_full [ex_first, ex_second])) =
     [[(''A'', JStr ''1''), (''B'', JStr ''2'')], [(''A'', JStr ''3''), (''B'', JStr ''4'')]]"
    by code_simp
  note c = preview_capped
    [where s = ex_full and ev = "Data [(''A'', JStr ''7'')]" and es = "[ex_first, ex_second]"]
  show ?thesis
    using h w c by blast
qed

subsection \<open>What the loop writes\<close>

lemma written_known:
  "canonicalHeaders s = Some ch \<Longrightarrow>
   written (foldl on_event s evs) = written s @ map (\<lambda>row. build_outRow row ch) (data_rows evs)"
proof (induction evs arbitrary: s)
  case Nil
  then show ?case by simp
next
  case (Cons ev evs)
  show ?case
  proof (cases ev)
    case (Headers headers)
    with Cons show ?thesis by (simp add: on_headers_def)
  next
    case (Data row)
    have "canonicalHeaders (on_data s row) = Some ch"
      using Cons.prems by simp
    from Cons.IH [OF this] Data Cons.prems show ?thesis
      by (simp add: on_data_def Let_def)
  qed
qed

lemma written_unknown:
  "canonicalHeaders s = None \<Longrightarrow>
   written (foldl on_event s evs) = written s @ expected_written evs"
proof (induction evs arbitrary: s)
  case Nil
  then show ?case by (simp add: expected_written_def)
next
  case (Cons ev evs)
  show ?case
  proof (cases ev)
    case (Headers headers)
    have c: "canonicalHeaders (on_headers s headers) = Some (keep_headers headers)"
      using Cons.prems by (simp add: canonical_on_headers)
    have w: "written (on_headers s headers) = written s @ [header_record (keep_headers headers)]"
      using Cons.prems by (simp add: on_headers_def Let_def)
    show ?thesis
      using written_known [OF c, of evs] w Headers by (simp add: expected_written_def)
  next
    case (Data row)
    have "on_data s row = s"
      using Cons.prems by (simp add: on_data_def)
    with Cons Data show ?thesis by (simp add: expected_written_def split: option.splits)
  qed
qed

lemma run_entries_prefix:
  "\<exists>k. snd (run_entries s es) = foldl on_event s (concat (map events (take k es)))"
proof (induction es arbitrary: s)
  case Nil
  then show ?case by simp
next
  case (Cons e es)
  show ?case
  proof (cases "cast_error (written (drain s e)) \<or> ending e \<noteq> End")
    case True
    then have "snd (run_entries s (e # es)) = drain s e"
      by (cases "ending e") auto
    then have "snd (run_entries s (e # es)) =
        foldl on_event s (concat (map events (take (Suc 0) (e # es))))"
      by (simp add: drain_def)
    then show ?thesis by blast
  next
    case False
    then have r: "run_entries s (e # es) = run_entries (drain s e) es"
      by simp
    from Cons [of "drain s e"] obtain k where
      "snd (run_entries (drain s e) es) =
         foldl on_event (drain s e) (concat (map events (take k es)))"
      by blast
    then have "snd (run_entries (drain s e) es) =
        foldl on_event s (concat (map events (take (Suc k) (e # es))))"
      by (simp add: drain_def)
    then have "snd (run_entries s (e # es)) =
        foldl on_event s (concat (map events (take (Suc k) (e # es))))"
      by (simp only: r)
    then show ?thesis by blast
  qed
qed

text \<open>
  The calls of \<^verbatim>\<open>csvStringifier.write\<close>: one with the header record, at the first
  \<^verbatim>\<open>headers\<close> event, and then one with the projection of each row, for the entries
  the loop has read.
\<close>

lemma written_run:
  "\<exists>k. written (snd (run_entries init_state es)) =
        expected_written (concat (map events (take k es)))"
proof -
  obtain k where
    "snd (run_entries init_state es) =
       foldl on_event init_state (concat (map events (take k es)))"
    using run_entries_prefix by blast
  then have "written (snd (run_entries init_state es)) =
      expected_written (concat (map events (take k es)))"
    using written_unknown [of init_state "concat (map events (take k es))"]
    by (simp add: init_state_def)
  then show ?thesis by blast
qed



text \<open>
  When every entry is read to its end, no record fails to be cast and the output stream
  finishes, the job succeeds, and the file holds what the stringifier makes of the
  header record and the projected rows of all entries. Text that is not well-formed CSV
  is such an entry: the parser, as it is made here, turns it into rows and ends.
\<close>

lemma cast_error_append: "cast_error records \<Longrightarrow> cast_error (records @ later)"
  by (cases records) (auto simp: cast_error_def)

lemma written_grows: "\<exists>ws. written (foldl on_event s evs) = written s @ ws"
proof (induction evs arbitrary: s)
  case Nil
  then show ?case by simp
next
  case (Cons ev evs)
  obtain ws where 1: "written (foldl on_event (on_event s ev) evs) = written (on_event s ev) @ ws"
    using Cons by blast
  have "\<exists>w. written (on_event s ev) = written s @ w"
    by (cases ev) (auto simp: on_headers_def on_data_def Let_def split: option.splits)
  then obtain w where "written (on_event s ev) = written s @ w"
    by blast
  with 1 have "written (foldl on_event s (ev # evs)) = written s @ (w @ ws)"
    by simp
  then show ?case by blast
qed

lemma run_entries_all_end:
  "\<forall>e\<in>set es. ending e = End \<Longrightarrow>
   \<not> cast_error (written (foldl on_event s (concat (map events es)))) \<Longrightarrow>
   run_entries s es = (Completed, foldl on_event s (concat (map events es)))"
proof (induction es arbitrary: s)
  case Nil
  then show ?case by simp
next
  case (Cons e es)
  obtain ws where
    "written (foldl on_event (drain s e) (concat (map events es))) = written (drain s e) @ ws"
    using written_grows by blast
  then have "cast_error (written (drain s e)) \<Longrightarrow>
      cast_error (written (foldl on_event (drain s e) (concat (map events es))))"
    by (simp add: cast_error_append)
  then have nc: "\<not> cast_error (written (drain s e))"
    using Cons.prems(2) by (auto simp: drain_def)
  have "run_entries (drain s e) es =
      (Completed, foldl on_event (drain s e) (concat (map events es)))"
    using Cons.prems by (intro Cons.IH) (simp_all add: drain_def)
  then show ?case
    using nc Cons.prems(1) by (simp add: drain_def)
qed

lemma well_ended_job_succeeds:
  assumes "open_result a = Inr files"
    and "filter is_csv files \<noteq> []"
    and "\<forall>e\<in>set (filter is_csv files). ending e = End"
    and "\<not> cast_error (expected_written (concat (map events (filter is_csv files))))"
    and "finish a = End"
  shows "succeeded (fst (upload_handler guid d (Some a)))"
    and "consolidated (snd (upload_handler guid d (Some a))) =
           Some (stringify True (expected_written (concat (map events (filter is_csv files)))))"
proof -
  let ?evs = "concat (map events (filter is_csv files))"
  have w: "written (foldl on_event init_state ?evs) = expected_written ?evs"
    using written_unknown [of init_state ?evs] by (simp add: init_state_def)
  then have "run_entries init_state (filter is_csv files) =
      (Completed, foldl on_event init_state ?evs)"
    using assms(3,4) by (intro run_entries_all_end) simp_all
  then show "succeeded (fst (upload_handler guid d (Some a)))"
    and "consolidated (snd (upload_handler guid d (Some a))) =
           Some (stringify True (expected_written ?evs))"
    using assms(1,2,5) w by (simp_all add: upload_handler_def Let_def)
qed

subsection \<open>Errors of the upload job\<close>









text \<open>
  Claim C6. When the archive opens and none of its entries is a regular file whose
  name ends in \<^verbatim>\<open>.csv\<close>, case ignored, the handler answers 400 with the message that
  no CSV files were found, removes the uploaded zip and leaves the output location as
  it was: no file is created there.
\<close>

theorem no_csv_entries:
  assumes "open_result a = Inr files"
    and "\<forall>f\<in>set files. \<not> (ftype f = File \<and> endsWith (toLowerCase (path f)) ''.csv'')"
  shows "upload_handler guid d (Some a) =
           (Status400 ''No CSV files found inside the zip'', d\<lparr>zip_present := False\<rparr>) \<and>
         consolidated (snd (upload_handler guid d (Some a))) = consolidated d"
proof -
  have "filter is_csv files = []"
    using assms(2) by (auto simp: filter_empty_conv is_csv_def)
  then show ?thesis
    using assms(1) by (simp add: upload_handler_def)
qed

theorem no_csv_entries_witness:
  "open_result \<lparr>open_result = Inr [ex_folder, ex_readme], finish = End\<rparr> =
     Inr [ex_folder, ex_readme] \<and>
   ftype ex_folder = Directory \<and>
   \<not> endsWith (toLowerCase (path ex_readme)) ''.csv'' \<and>
   upload_handler ''g'' ex_disk (Some \<lparr>open_result = Inr [ex_folder, ex_readme], finish = End\<rparr>) =
     (Status400 ''No CSV files found inside the zip'', ex_disk\<lparr>zip_present := False\<rparr>) \<and>
   consolidated (snd (upload_handler ''g'' ex_disk
      (Some \<lparr>open_result = Inr [ex_folder, ex_readme], finish = End\<rparr>))) = None"
proof -
  have h1: "open_result \<lparr>open_result = Inr [ex_folder, ex_readme], finish = End\<rparr> =
     Inr [ex_folder, ex_readme]"
    by simp
  have h2: "\<forall>f\<in>set [ex_folder, ex_readme].
      \<not> (ftype f = File \<and> endsWith (toLowerCase (path f)) ''.csv'')"
    by code_simp
  note c = no_csv_entries [OF h1 h2, of "''g''" ex_disk]
  have n: "consolidated ex_disk = None"
    by (simp add: ex_disk_def)
  have f: "ftype ex_folder = Directory"
    by (simp add: ex_folder_def)
  have t: "\<not> endsWith (toLowerCase (path ex_readme)) ''.csv''"
    by code_simp
  show ?thesis
    using h1 f t c n by simp
qed

subsection \<open>The header line of the consolidated file\<close>

lemma map_of_fold_update:
  "map_of (fold (\<lambda>h ob. AList.update h (f h) ob) ch acc) k =
     (if k \<in> set ch then Some (f k) else map_of acc k)"
  by (induction ch arbitrary: acc) (auto simp: update_conv')

lemma keys_fold_update:
  "distinct ch \<Longrightarrow> set ch \<inter> fst ` set acc = {} \<Longrightarrow>
   map fst (fold (\<lambda>h ob. AList.update h (f h) ob) ch acc) = map fst acc @ ch"
proof (induction ch arbitrary: acc)
  case Nil
  then show ?case by simp
next
  case (Cons h ch)
  have "map fst (AList.update h (f h) acc) = map fst acc @ [h]"
    using Cons.prems by (simp add: update_keys)
  moreover have "set ch \<inter> fst ` set (AList.update h (f h) acc) = {}"
    using Cons.prems by (auto simp: dom_update)
  ultimately show ?case
    using Cons.IH [of "AList.update h (f h) acc"] Cons.prems by simp
qed

lemma fold_header: "header_record ch = fold (\<lambda>h ob. AList.update h (JStr h) ob) ch []"
  by (simp add: header_record_def fromEntries_def fold_map comp_def)

lemma own_keys_header_record: "fst ` set (header_record ch) = set ch"
proof -
  have "fst ` set (header_record ch) = dom (map_of (header_record ch))"
    by (simp add: dom_map_of_conv_image_fst)
  also have "\<dots> = set ch"
    by (auto simp: fold_header map_of_fold_update dom_def)
  finally show ?thesis .
qed

lemma obj_get_header_record: "h \<in> set ch \<Longrightarrow> obj_get (header_record ch) h = JStr h"
  by (simp add: fold_header obj_get_def map_of_fold_update)

text \<open>A header without repeated names and without array indices keeps its order.\<close>

lemma keys_header_record:
  "distinct ch \<Longrightarrow> list_all (\<lambda>h. \<not> is_index h) ch \<Longrightarrow> obj_keys (header_record ch) = ch"
proof -
  assume d: "distinct ch" and n: "list_all (\<lambda>h. \<not> is_index h) ch"
  have k: "map fst (header_record ch) = ch"
    using keys_fold_update [of ch "[]" JStr] d by (simp add: fold_header)
  have "filter is_index ch = []" and "filter (\<lambda>k. \<not> is_index k) ch = ch"
    using n by (simp_all add: list_all_iff filter_empty_conv filter_id_conv)
  then show ?thesis
    by (simp add: obj_keys_def k)
qed

text \<open>
  With \<^verbatim>\<open>header: true\<close> the stringifier emits the column names taken from the first
  record, and then the first record, which the handler made of the same names: the
  header line comes out twice.
\<close>

lemma header_line_twice:
  "take 2 (stringify True (header_record ch # records)) =
     [obj_keys (header_record ch), obj_keys (header_record ch)]"
proof -
  let ?cols = "obj_keys (header_record ch)"
  have c: "\<forall>c\<in>set ?cols. obj_get (header_record ch) c = JStr c"
    by (simp add: set_obj_keys own_keys_header_record obj_get_header_record)
  then have "castable_record ?cols (header_record ch)"
    by (simp add: castable_record_def list_all_iff)
  moreover have "map (\<lambda>c. cell (obj_get (header_record ch) c)) ?cols = ?cols"
    using c by (simp add: map_idI)
  ultimately show ?thesis
    by (simp add: stringify_def Let_def)
qed

lemma header_line_once:
  "take 1 (stringify False (header_record ch # records)) = [obj_keys (header_record ch)]"
proof -
  let ?cols = "obj_keys (header_record ch)"
  have c: "\<forall>c\<in>set ?cols. obj_get (header_record ch) c = JStr c"
    by (simp add: set_obj_keys own_keys_header_record obj_get_header_record)
  then have "castable_record ?cols (header_record ch)"
    by (simp add: castable_record_def list_all_iff)
  moreover have "map (\<lambda>c. cell (obj_get (header_record ch) c)) ?cols = ?cols"
    using c by (simp add: map_idI)
  ultimately show ?thesis
    by (simp add: stringify_def Let_def)
qed

text \<open>
  Claim C4. The handler writes the header record once, at the first \<^verbatim>\<open>headers\<close> event,
  and then only projected rows (\<open>written_run\<close>). The consolidated file of a successful
  job nevertheless has the canonical header twice: on this archive of two CSV entries
  its lines are the header, the header again, and the two data rows.
\<close>

theorem header_line_emitted_twice:
  "upload_handler ''g'' ex_disk
     (Some \<lparr>open_result = Inr [ex_folder, ex_first, ex_readme, ex_second], finish = End\<rparr>) =
     (UploadJson
        \<lparr>res_preview = [[(''A'', JStr ''1''), (''B'', JStr ''2'')],
                        [(''A'', JStr ''3''), (''B'', JStr ''4'')]],
         res_distinct = \<lparr>currentStation = [], receiverType = [], journeyType = [],
                         receiveStatus = []\<rparr>,
         res_consolidatedPath = ''/data/consolidated-g.csv''\<rparr>,
      \<lparr>zip_present = False,
       consolidated = Some [[''A'', ''B''], [''A'', ''B''], [''1'', ''2''], [''3'', ''4'']]\<rparr>)"
  by code_simp

subsection \<open>The path of the preview operation\<close>

lemma basename_no_slash: "CHR ''/'' \<notin> set (basename p)"
  by (auto simp: basename_def dest: set_takeWhileD)

lemma split_slash_nonempty: "split_slash p \<noteq> []"
  by (induction p) (auto split: list.splits)

lemma split_slash_append:
  "split_slash (p @ CHR ''/'' # q) = split_slash p @ split_slash q"
proof (induction p)
  case Nil
  then show ?case by simp
next
  case (Cons c p)
  then show ?case
    using split_slash_nonempty [of p] by (auto split: list.splits)
qed

lemma split_slash_segment: "CHR ''/'' \<notin> set b \<Longrightarrow> split_slash b = [b]"
  by (induction b) auto

lemma normalizeString_append:
  "normalizeString a acc (segs @ rest) =
     normalizeString a (rev (normalizeString a acc segs)) rest"
  by (induction a acc segs rule: normalizeString.induct) (auto split: list.splits)

lemma join_slash_snoc:
  "join_slash (segs @ [b]) = (if segs = [] then b else join_slash segs @ ''/'' @ b)"
  by (induction segs rule: join_slash.induct) auto

lemma join_slash_Nil: "join_slash segs = [] \<Longrightarrow> segs = [] \<or> segs = [[]]"
  by (induction segs rule: join_slash.induct) auto

text \<open>
  A file name whose base name is an ordinary segment resolves to that name directly
  below the output directory.
\<close>

lemma resolve_preview_inside:
  assumes dir: "resolved_dir dir"
    and b: "basename file \<noteq> []" "basename file \<noteq> ''.''" "basename file \<noteq> ''..''"
  shows "resolve_preview dir file = dir @ ''/'' @ basename file"
    and "inside_dir dir (resolve_preview dir file)"
proof -
  let ?b = "basename file"
  let ?segs = "normalizeString True [] (split_slash dir)"
  have ns: "CHR ''/'' \<notin> set ?b"
    by (rule basename_no_slash)
  from dir have d: "dir \<noteq> []" "hd dir = CHR ''/''" "last dir \<noteq> CHR ''/''" "normalize dir = dir"
    by (simp_all add: resolved_dir_def)
  have body: "join_slash ?segs \<noteq> []"
  proof
    assume "join_slash ?segs = []"
    with d(1,2,4) have "dir = ''/''"
      by (simp add: normalize_def Let_def)
    with d(3) show False by simp
  qed
  then have segs: "?segs \<noteq> []"
    by auto
  have dir_eq: "dir = ''/'' @ join_slash ?segs"
    using d body by (simp add: normalize_def Let_def split: if_splits)
  have "last (dir @ ''/'' @ ?b) = last ?b"
    using b(1) by simp
  moreover have "last ?b \<in> set ?b"
    using b(1) by simp
  ultimately have last_b: "last (dir @ ''/'' @ ?b) \<noteq> CHR ''/''"
    using ns by metis
  have "split_slash (dir @ ''/'' @ ?b) = split_slash dir @ [?b]"
    using split_slash_append [of dir ?b] split_slash_segment [OF ns] by simp
  then have "normalizeString True [] (split_slash (dir @ ''/'' @ ?b)) =
      normalizeString True (rev ?segs) [?b]"
    by (simp add: normalizeString_append)
  also have "\<dots> = ?segs @ [?b]"
    using b by simp
  finally have "join_slash (normalizeString True [] (split_slash (dir @ ''/'' @ ?b))) =
      join_slash ?segs @ ''/'' @ ?b"
    using segs by (simp add: join_slash_snoc)
  then have "normalize (dir @ ''/'' @ ?b) = ''/'' @ join_slash ?segs @ ''/'' @ ?b"
    using d(1,2) last_b by (simp add: normalize_def Let_def)
  then have "normalize (dir @ ''/'' @ ?b) = dir @ ''/'' @ ?b"
    using dir_eq by simp
  then show r: "resolve_preview dir file = dir @ ''/'' @ basename file"
    using d(1) b(1) by (simp add: resolve_preview_def path_join_def)
  show "inside_dir dir (resolve_preview dir file)"
    using b(1) by (simp add: r inside_dir_def)
qed

lemma ex_resolved: "resolved_dir ''/srv/app/data''"
  by code_simp

text \<open>
  The other two parts of the operation: a path that does not exist is reported as not
  found, and a limit that is a natural number bounds the number of rows returned. The
  test \<^verbatim>\<open>out.length < limit\<close> admits one row more than a fractional limit.
\<close>

lemma preview_not_found:
  "f \<noteq> [] \<Longrightarrow> \<not> existsSync env (resolve_preview (DATA_DIR env) f) \<Longrightarrow>
   preview_handler env (Some f) limit = Status404 ''file not found''"
  by (simp add: preview_handler_def)

lemma length_push_rows:
  "length (foldl (push_row (Fin (of_nat n))) out rows) \<le> max (length out) n"
proof (induction rows arbitrary: out)
  case Nil
  then show ?case by simp
next
  case (Cons row rows)
  show ?case
  proof (cases "length out < n")
    case True
    with Cons [of "out @ [row]"] show ?thesis
      by (simp add: push_row_def)
  next
    case False
    with Cons [of out] show ?thesis
      by (simp add: push_row_def)
  qed
qed

lemma preview_at_most_limit:
  "preview_handler env file (Fin (of_nat n)) = PreviewJson out \<Longrightarrow> length out \<le> n"
  using length_push_rows [of n "[]"]
  by (auto simp: preview_handler_def Let_def split: option.splits if_splits prod.splits ending.splits)

lemma fractional_limit:
  "preview_handler ex_env (Some ''consolidated-g.csv'') (Fin (5 / 2)) =
     PreviewJson [[(''A'', JStr ''1''), (''B'', JStr ''2'')],
                  [(''A'', JStr ''3''), (''B'', JStr ''4'')],
                  [(''A'', JStr ''5''), (''B'', JStr ''6'')]]"
  by code_simp

text \<open>
  Claim C9. The resolved path does not always lie inside the output directory. The
  file name \<^verbatim>\<open>..\<close> is its own base name, and joined to the output directory it
  resolves to the directory's parent. The parent exists, so the handler does not report
  not-found: it goes on to read the directory, and the error of the read stream, which
  has no listener, ends the process.
\<close>

theorem preview_dotdot_leaves_data_dir:
  "basename ''..'' = ''..'' \<and>
   resolve_preview (DATA_DIR ex_env) ''..'' = ''/srv/app'' \<and>
   \<not> inside_dir (DATA_DIR ex_env) (resolve_preview (DATA_DIR ex_env) ''..'') \<and>
   preview_handler ex_env (Some ''..'') (Fin 50) =
     Crashed ''Error: EISDIR: illegal operation on a directory, read''"
  by code_simp

end
